theory Spec2Isabelle
  imports Main "HOL-Library.Word" "HOL-Library.Monad_Syntax"
begin

unbundle bit_operations_syntax

section \<open>Data model of trie.h and trie.c\<close>

text \<open>
  \<^verbatim>\<open>ikey_t\<close> is \<^verbatim>\<open>unsigned int\<close>, examined with a 32-bit mask (\<^verbatim>\<open>BITSPERWORD\<close>);
  \<^verbatim>\<open>size_t\<close> is taken as the 64-bit unsigned type of an LP64 platform.
  Additions and subtractions on both wrap around.
\<close>

type_synonym ikey_t = "32 word"
type_synonym size_t = "64 word"

text \<open>\<^verbatim>\<open>FILE *\<close>: the stream handle handed through to the user's display function.\<close>

type_synonym FILE = nat

text \<open>
  \<^verbatim>\<open>struct Entry_s { ival_t value; ikey_t key; }\<close>. The value type \<^verbatim>\<open>void *\<close> is opaque
  to the trie and is the type parameter \<open>'v\<close>. The field \<^verbatim>\<open>value\<close> is called \<open>val\<close>.
  An \<^verbatim>\<open>Entry\<close> is a pointer to this struct: \<open>None\<close> is the \<^verbatim>\<open>NULL\<close> pointer.
\<close>

record 'v Entry_s =
  val :: 'v
  key :: ikey_t

type_synonym 'v Entry = "'v Entry_s option"

text \<open>
  \<^verbatim>\<open>typedef struct Node_s * Node\<close> with \<^verbatim>\<open>struct Node_s { Entry entry; Node left; Node right; }\<close>.
  A value of type \<open>'v Node\<close> is a pointer: either \<open>NULL\<close> or the address of a struct,
  written \<open>Node_s e l r\<close> with the struct's three fields. Every node is owned by exactly
  one parent field (the code never copies a node pointer into a second field), so the
  pointer structure is a tree and a destructive update of a field is the rebuilding of
  the path above it.
\<close>

datatype 'v Node = NULL | Node_s (entry: "'v Entry") (left: "'v Node") (right: "'v Node")

text \<open>
  The world outside the trie: the state \<open>user\<close> that the two user callbacks act on
  (streams and the memory behind entry values), the lines written to \<^verbatim>\<open>stderr\<close>, and the
  number of calls to \<^verbatim>\<open>free\<close>.
\<close>

record 'u world =
  user :: 'u
  stderr :: "string list"
  frees :: nat

text \<open>\<^verbatim>\<open>struct Trie_s\<close>; a callback field is \<open>None\<close> for a \<^verbatim>\<open>NULL\<close> function pointer.\<close>

record ('v, 'u) Trie_s =
  root :: "'v Node"
  num_nodes :: size_t
  leaf_nodes :: size_t
  height :: size_t
  ibt_show_value_w :: "('v Entry \<Rightarrow> FILE \<Rightarrow> 'u \<Rightarrow> 'u) option"
  ibt_delete_entry :: "('v Entry \<Rightarrow> 'u \<Rightarrow> 'u) option"

definition BITSPERWORD :: size_t where
  "BITSPERWORD = 32"

definition EXIT_FAILURE :: int where
  "EXIT_FAILURE = 1"

section \<open>Creation and destruction\<close>

text \<open>
  \<^verbatim>\<open>ibt_create\<close>. The flag \<open>malloc_ok\<close> says whether the allocation of the \<^verbatim>\<open>Trie_s\<close>
  succeeds; on failure the function returns \<^verbatim>\<open>NULL\<close>, here \<open>None\<close>. The allocations of
  nodes and entries are not checked by the code and are taken to succeed.
\<close>

definition ibt_create ::
  "bool \<Rightarrow> ('v Entry \<Rightarrow> FILE \<Rightarrow> 'u \<Rightarrow> 'u) option \<Rightarrow> ('v Entry \<Rightarrow> 'u \<Rightarrow> 'u) option
    \<Rightarrow> ('v, 'u) Trie_s option" where
  "ibt_create malloc_ok ext_show_value ext_delete_entry =
     (if \<not> malloc_ok then None
      else Some \<lparr> root = NULL, num_nodes = 0, leaf_nodes = 0, height = 0,
                  ibt_show_value_w = ext_show_value,
                  ibt_delete_entry = ext_delete_entry \<rparr>)"

text \<open>
  \<^verbatim>\<open>ibt_delete_value\<close>, given the entry field of the node it is called on (the caller
  has checked that the node is not \<^verbatim>\<open>NULL\<close>): the user's function on the entry when both
  are present, then \<^verbatim>\<open>free(node->entry)\<close>, then \<^verbatim>\<open>free(node)\<close>.
\<close>

definition ibt_delete_value ::
  "('v, 'u) Trie_s \<Rightarrow> 'v Entry \<Rightarrow> 'u world \<Rightarrow> 'u world" where
  "ibt_delete_value trie e w =
     (case e of
        None \<Rightarrow> w\<lparr> frees := frees w + 1 \<rparr>
      | Some x \<Rightarrow>
          (case ibt_delete_entry trie of
             None \<Rightarrow> w\<lparr> frees := frees w + 2 \<rparr>
           | Some f \<Rightarrow> w\<lparr> user := f (Some x) (user w), frees := frees w + 2 \<rparr>))"

fun ibt_destroy_rec :: "('v, 'u) Trie_s \<Rightarrow> 'v Node \<Rightarrow> 'u world \<Rightarrow> 'u world" where
  "ibt_destroy_rec trie NULL w = w"
| "ibt_destroy_rec trie (Node_s e l r) w =
     ibt_delete_value trie e (ibt_destroy_rec trie r (ibt_destroy_rec trie l w))"

definition ibt_destroy :: "('v, 'u) Trie_s \<Rightarrow> 'u world \<Rightarrow> 'u world" where
  "ibt_destroy trie w =
     (let w' = ibt_destroy_rec trie (root trie) w in w'\<lparr> frees := frees w' + 1 \<rparr>)"

section \<open>Insertion\<close>

definition ibt_make_node :: "'v Node" where
  "ibt_make_node = Node_s None NULL NULL"

definition ibt_make_leaf :: "'v Entry \<Rightarrow> 'v Node" where
  "ibt_make_leaf e = Node_s e NULL NULL"

definition ibt_make_entry :: "ikey_t \<Rightarrow> 'v \<Rightarrow> 'v Entry" where
  "ibt_make_entry k v = Some \<lparr> val = v, key = k \<rparr>"

text \<open>
  A result \<open>None\<close> of the functions below means that the C call does not return
  normally: the \<^verbatim>\<open>while (1)\<close> loop runs forever, or a \<^verbatim>\<open>NULL\<close> pointer is dereferenced.

  \<^verbatim>\<open>ibt_make_branch\<close>: the loop walks the mask down while the two keys agree, hanging a
  fresh empty node below \<open>cur\<close> on each round, and ends with two leaves at the first
  bit where the keys differ. The counters behind the pointers \<^verbatim>\<open>nc\<close> and \<^verbatim>\<open>bh\<close> are
  passed in and returned. Once the mask has been shifted to 0 both masked bits are 0
  and the loop never ends.
\<close>

partial_function (option) ibt_make_branch ::
  "'v Node \<Rightarrow> ikey_t \<Rightarrow> ikey_t \<Rightarrow> ikey_t \<Rightarrow> 'v \<Rightarrow> 'v Entry \<Rightarrow> size_t \<Rightarrow> size_t
    \<Rightarrow> ('v Node \<times> size_t \<times> size_t) option" where
  "ibt_make_branch cur key1 key2 msk val1 entry2 nc bh =
     (case cur of
        NULL \<Rightarrow> None
      | Node_s e l r \<Rightarrow>
          (let bit1 = key1 AND msk; bit2 = key2 AND msk in
           if bit1 = bit2 then
             (if bit1 = 0 then
                do {
                  (child, nc', bh') \<leftarrow>
                    ibt_make_branch ibt_make_node key1 key2 (drop_bit 1 msk) val1 entry2
                      (nc + 1) (bh + 1);
                  Some (Node_s e child r, nc', bh')
                }
              else
                do {
                  (child, nc', bh') \<leftarrow>
                    ibt_make_branch ibt_make_node key1 key2 (drop_bit 1 msk) val1 entry2
                      (nc + 1) (bh + 1);
                  Some (Node_s e l child, nc', bh')
                })
           else
             (if bit1 = 0 then
                Some (Node_s e (ibt_make_leaf (ibt_make_entry key1 val1)) (ibt_make_leaf entry2),
                      nc + 2, bh + 1)
              else
                Some (Node_s e (ibt_make_leaf entry2) (ibt_make_leaf (ibt_make_entry key1 val1)),
                      nc + 2, bh + 1))))"

text \<open>
  The loop of \<^verbatim>\<open>ibt_insert_iter\<close>, on the current node, the mask, \<^verbatim>\<open>trie->num_nodes\<close> and
  \<^verbatim>\<open>*bh\<close>. A node without children is taken for a leaf and its entry is dereferenced.
\<close>

fun ibt_insert_loop ::
  "'v Node \<Rightarrow> ikey_t \<Rightarrow> 'v \<Rightarrow> ikey_t \<Rightarrow> size_t \<Rightarrow> size_t \<Rightarrow> ('v Node \<times> size_t \<times> size_t) option"
  where
  "ibt_insert_loop NULL k v msk nn bh = None"
| "ibt_insert_loop (Node_s e l r) k v msk nn bh =
     (if r = NULL \<and> l = NULL then
        (case e of
           None \<Rightarrow> None
         | Some e_old \<Rightarrow>
             if k \<noteq> key e_old then
               ibt_make_branch (Node_s None l r) k (key e_old) msk v (Some e_old) nn bh
             else Some (Node_s e l r, nn, bh))
      else if k AND msk = 0 then
        (if l = NULL then
           Some (Node_s e (ibt_make_leaf (ibt_make_entry k v)) r, nn + 1, bh + 1)
         else
           do {
             (l', nn', bh') \<leftarrow> ibt_insert_loop l k v (drop_bit 1 msk) nn (bh + 1);
             Some (Node_s e l' r, nn', bh')
           })
      else
        (if r = NULL then
           Some (Node_s e l (ibt_make_leaf (ibt_make_entry k v)), nn + 1, bh + 1)
         else
           do {
             (r', nn', bh') \<leftarrow> ibt_insert_loop r k v (drop_bit 1 msk) nn (bh + 1);
             Some (Node_s e l r', nn', bh')
           }))"

text \<open>The mask of the most significant bit: \<^verbatim>\<open>mask = 1; mask <<= (BITSPERWORD - 1)\<close>.\<close>

definition top_mask :: ikey_t where
  "top_mask = push_bit (unat (BITSPERWORD - 1)) 1"

definition ibt_insert_iter ::
  "('v, 'u) Trie_s \<Rightarrow> ikey_t \<Rightarrow> 'v \<Rightarrow> size_t \<Rightarrow> (('v, 'u) Trie_s \<times> size_t) option" where
  "ibt_insert_iter trie k v bh =
     do {
       (root', nn, bh') \<leftarrow> ibt_insert_loop (root trie) k v top_mask (num_nodes trie) bh;
       Some (trie\<lparr> root := root', num_nodes := nn \<rparr>, bh')
     }"

definition ibt_insert :: "('v, 'u) Trie_s \<Rightarrow> ikey_t \<Rightarrow> 'v \<Rightarrow> ('v, 'u) Trie_s option" where
  "ibt_insert trie0 k v =
     (let trie = trie0\<lparr> leaf_nodes := leaf_nodes trie0 + 1 \<rparr> in
      if root trie = NULL then
        Some (trie\<lparr> root := ibt_make_leaf (ibt_make_entry k v), height := 1, num_nodes := 1 \<rparr>)
      else
        do {
          (trie', bh) \<leftarrow> ibt_insert_iter trie k v 1;
          Some (if bh > height trie' then trie'\<lparr> height := bh \<rparr> else trie')
        })"

section \<open>Search\<close>

text \<open>
  \<^verbatim>\<open>ibt_closest_match_rec\<close>; the mode is a \<^verbatim>\<open>char\<close>, and every mode other than \<^verbatim>\<open>'l'\<close>
  favours the right. The result is the entry pointer of the node reached.
\<close>

fun ibt_closest_match_rec :: "'v Node \<Rightarrow> char \<Rightarrow> 'v Entry option" where
  "ibt_closest_match_rec NULL mode = None"
| "ibt_closest_match_rec (Node_s e l r) mode =
     (if l = NULL \<and> r = NULL then Some e
      else if mode = CHR ''l'' then
        (if l \<noteq> NULL then ibt_closest_match_rec l (CHR ''l'')
         else ibt_closest_match_rec r (CHR ''l''))
      else
        (if r \<noteq> NULL then ibt_closest_match_rec r (CHR ''r'')
         else ibt_closest_match_rec l (CHR ''r'')))"

fun ibt_search_rec :: "'v Node \<Rightarrow> ikey_t \<Rightarrow> ikey_t \<Rightarrow> 'v Entry option" where
  "ibt_search_rec NULL k msk = None"
| "ibt_search_rec (Node_s e l r) k msk =
     (if l = NULL \<and> r = NULL then Some e
      else if k AND msk = 0 then
        (if l = NULL then ibt_closest_match_rec r (CHR ''l'')
         else ibt_search_rec l k (drop_bit 1 msk))
      else
        (if r = NULL then ibt_closest_match_rec l (CHR ''r'')
         else ibt_search_rec r k (drop_bit 1 msk)))"

text \<open>
  What a call of \<^verbatim>\<open>ibt_search\<close> ends in: it returns an entry pointer, and the trie and
  the world are as they were, since the function and the two it calls contain no
  store; or the process exits with a status, after which there is no trie.
\<close>

datatype ('v, 'u) search_outcome =
    Returned "'v Entry" "('v, 'u) Trie_s" "'u world"
  | Exited int "'u world"

definition ibt_search ::
  "('v, 'u) Trie_s \<Rightarrow> ikey_t \<Rightarrow> 'u world \<Rightarrow> ('v, 'u) search_outcome option" where
  "ibt_search trie k w =
     (if root trie = NULL then
        Some (Exited EXIT_FAILURE
          (ibt_destroy trie (w\<lparr> stderr := stderr w @ [''error: cannot query an empty trie''] \<rparr>)))
      else
        map_option (\<lambda>e. Returned e trie w) (ibt_search_rec (root trie) k top_mask))"

section \<open>Counters\<close>

definition ibt_size :: "('v, 'u) Trie_s \<Rightarrow> size_t" where
  "ibt_size trie = leaf_nodes trie"

definition ibt_node_count :: "('v, 'u) Trie_s \<Rightarrow> size_t" where
  "ibt_node_count trie = num_nodes trie - leaf_nodes trie"

definition ibt_height :: "('v, 'u) Trie_s \<Rightarrow> size_t" where
  "ibt_height trie = height trie"

section \<open>Display\<close>

definition ibt_show_value :: "('v, 'u) Trie_s \<Rightarrow> 'v Entry \<Rightarrow> FILE \<Rightarrow> 'u world \<Rightarrow> 'u world" where
  "ibt_show_value trie e stream w =
     (case ibt_show_value_w trie of
        None \<Rightarrow> w\<lparr> stderr := stderr w @ [''error: no user display function defined''] \<rparr>
      | Some f \<Rightarrow> w\<lparr> user := f e stream (user w) \<rparr>)"

fun ibt_show_rec :: "('v, 'u) Trie_s \<Rightarrow> 'v Node \<Rightarrow> FILE \<Rightarrow> 'u world \<Rightarrow> 'u world" where
  "ibt_show_rec trie NULL stream w = w"
| "ibt_show_rec trie (Node_s e l r) stream w =
     (let w1 = ibt_show_rec trie l stream w;
          w2 = (if e \<noteq> None then ibt_show_value trie e stream w1 else w1)
      in ibt_show_rec trie r stream w2)"

definition ibt_show :: "('v, 'u) Trie_s \<Rightarrow> FILE \<Rightarrow> 'u world \<Rightarrow> 'u world" where
  "ibt_show trie stream w = ibt_show_rec trie (root trie) stream w"

section \<open>Tries built through the interface\<close>

text \<open>A sequence of \<^verbatim>\<open>ibt_insert\<close> calls, in the order of the list.\<close>

fun ibt_inserts :: "('v, 'u) Trie_s \<Rightarrow> (ikey_t \<times> 'v) list \<Rightarrow> ('v, 'u) Trie_s option" where
  "ibt_inserts trie [] = Some trie"
| "ibt_inserts trie ((k, v) # kvs) = ibt_insert trie k v \<bind> (\<lambda>trie'. ibt_inserts trie' kvs)"

text \<open>\<^verbatim>\<open>ibt_create\<close> followed by the insertions of \<open>kvs\<close>.\<close>

definition build ::
  "('v Entry \<Rightarrow> FILE \<Rightarrow> 'u \<Rightarrow> 'u) option \<Rightarrow> ('v Entry \<Rightarrow> 'u \<Rightarrow> 'u) option \<Rightarrow> (ikey_t \<times> 'v) list
    \<Rightarrow> ('v, 'u) Trie_s option" where
  "build sf df kvs = ibt_create True sf df \<bind> (\<lambda>trie. ibt_inserts trie kvs)"

section \<open>Observations on a tree\<close>

text \<open>The entries of a tree from left to right: left subtree, the node's own entry, right subtree.\<close>

fun entries :: "'v Node \<Rightarrow> 'v Entry_s list" where
  "entries NULL = []"
| "entries (Node_s e l r) = entries l @ (case e of None \<Rightarrow> [] | Some x \<Rightarrow> [x]) @ entries r"

definition node_keys :: "'v Node \<Rightarrow> ikey_t set" where
  "node_keys n = key ` set (entries n)"

text \<open>The number of node structs of a tree, those among them that hold no entry, and
  the number of nodes on its longest path from the top.\<close>

fun count_nodes :: "'v Node \<Rightarrow> nat" where
  "count_nodes NULL = 0"
| "count_nodes (Node_s e l r) = Suc (count_nodes l + count_nodes r)"

fun internal_nodes :: "'v Node \<Rightarrow> nat" where
  "internal_nodes NULL = 0"
| "internal_nodes (Node_s e l r) =
     (if e = None then 1 else 0) + internal_nodes l + internal_nodes r"

fun levels :: "'v Node \<Rightarrow> nat" where
  "levels NULL = 0"
| "levels (Node_s e l r) = Suc (max (levels l) (levels r))"

text \<open>
  The shape the specification asks of every node: a leaf holds an entry and has no
  child, a branch holds no entry and has at least one child.
\<close>

fun node_ok :: "'v Node \<Rightarrow> bool" where
  "node_ok NULL = True"
| "node_ok (Node_s e l r) =
     (((e \<noteq> None \<and> l = NULL \<and> r = NULL) \<or> (e = None \<and> (l \<noteq> NULL \<or> r \<noteq> NULL)))
      \<and> node_ok l \<and> node_ok r)"

text \<open>
  The mask the loops hold at a node with \<open>n\<close> key bits still unexamined: bit \<open>n - 1\<close>, and
  0 once all 32 bits are used up.
\<close>

definition level_mask :: "nat \<Rightarrow> ikey_t" where
  "level_mask n = (if n = 0 then 0 else 2 ^ (n - 1))"

text \<open>
  The invariant of insertion. A subtree with \<open>n\<close> bits unexamined and path prefix \<open>p\<close>
  holds only keys whose bits above the lowest \<open>n\<close> spell \<open>p\<close>; a branch has bits left to
  examine, sends keys with the next bit 0 to the left and 1 to the right, and has a
  child; a leaf has none.
\<close>

fun wf_node :: "nat \<Rightarrow> nat \<Rightarrow> 'v Node \<Rightarrow> bool" where
  "wf_node n p NULL = True"
| "wf_node n p (Node_s e l r) =
     (case e of
        Some x \<Rightarrow> l = NULL \<and> r = NULL \<and> unat (key x) div 2 ^ n = p
      | None \<Rightarrow> (l \<noteq> NULL \<or> r \<noteq> NULL) \<and> 0 < n
                \<and> wf_node (n - 1) (2 * p) l \<and> wf_node (n - 1) (2 * p + 1) r)"

text \<open>The invariant of a trie: the tree is well formed from the top bit down, and the two
  structural counters tell the number of nodes and of levels.\<close>

definition trie_inv :: "('v, 'u) Trie_s \<Rightarrow> bool" where
  "trie_inv t \<longleftrightarrow>
     wf_node 32 0 (root t) \<and> num_nodes t = of_nat (count_nodes (root t))
     \<and> height t = of_nat (levels (root t))"

section \<open>The search of the specification\<close>

text \<open>
  The description of closest-match search in the specification, to be compared with
  \<^verbatim>\<open>ibt_search_rec\<close> and \<^verbatim>\<open>ibt_closest_match_rec\<close>. The key's bits are taken from the
  most significant to the least significant, one per level.
\<close>

datatype side = Bias_Left | Bias_Right

fun bits_from :: "nat \<Rightarrow> ikey_t \<Rightarrow> bool list" where
  "bits_from 0 k = []"
| "bits_from (Suc n) k = bit k n # bits_from n k"

definition key_bits :: "ikey_t \<Rightarrow> bool list" where
  "key_bits k = bits_from 32 k"

text \<open>
  Exact descent: \<open>Some (b, s)\<close> when it reaches the branch \<open>b\<close> whose required child, on
  side \<open>s\<close>, is absent; \<open>None\<close> when it ends in a leaf.
\<close>

fun spec_descent :: "'v Node \<Rightarrow> bool list \<Rightarrow> ('v Node \<times> side) option" where
  "spec_descent NULL bs = None"
| "spec_descent (Node_s e l r) [] = None"
| "spec_descent (Node_s e l r) (b # bs) =
     (if l = NULL \<and> r = NULL then None
      else if \<not> b then
        (if l = NULL then Some (Node_s e l r, Bias_Left) else spec_descent l bs)
      else
        (if r = NULL then Some (Node_s e l r, Bias_Right) else spec_descent r bs))"

text \<open>
  Closest-match mode with a bias: into the child on the side of the bias when it is
  present, otherwise into the other child, until a leaf is reached; the leaf's entry is
  the result.
\<close>

fun spec_closest :: "side \<Rightarrow> 'v Node \<Rightarrow> 'v Entry" where
  "spec_closest s NULL = None"
| "spec_closest s (Node_s e l r) =
     (if l = NULL \<and> r = NULL then e
      else case s of
        Bias_Left \<Rightarrow> if l \<noteq> NULL then spec_closest Bias_Left l else spec_closest Bias_Left r
      | Bias_Right \<Rightarrow> if r \<noteq> NULL then spec_closest Bias_Right r else spec_closest Bias_Right l)"

section \<open>Sample values\<close>

text \<open>The trie after inserting the keys \<^verbatim>\<open>0x80000000\<close> and \<^verbatim>\<open>0xC0000000\<close>, which agree on
  bit 31 and differ on bit 30, and a world in which nothing has happened yet.\<close>

definition two_key_trie :: "(string, unit) Trie_s" where
  "two_key_trie =
     \<lparr>root = Node_s None NULL
               (Node_s None (Node_s (Some \<lparr>val = ''a'', key = 0x80000000\<rparr>) NULL NULL)
                  (Node_s (Some \<lparr>val = ''b'', key = 0xC0000000\<rparr>) NULL NULL)),
      num_nodes = 4, leaf_nodes = 2, height = 3,
      ibt_show_value_w = None, ibt_delete_entry = None\<rparr>"

definition idle_world :: "unit world" where
  "idle_world = \<lparr>user = (), stderr = [], frees = 0\<rparr>"

text \<open>A display function that appends the key of the entry it is shown to a log, the
  trie above when created with it, and the trie after the single insertion of key 5.\<close>

definition log_key :: "string Entry \<Rightarrow> FILE \<Rightarrow> ikey_t list \<Rightarrow> ikey_t list" where
  "log_key e stream log = (case e of None \<Rightarrow> log | Some x \<Rightarrow> log @ [key x])"

definition logging_trie :: "(string, ikey_t list) Trie_s" where
  "logging_trie =
     \<lparr>root = root two_key_trie, num_nodes = 4, leaf_nodes = 2, height = 3,
      ibt_show_value_w = Some log_key, ibt_delete_entry = None\<rparr>"

definition one_key_trie :: "(string, unit) Trie_s" where
  "one_key_trie =
     \<lparr>root = Node_s (Some \<lparr>val = ''a'', key = 5\<rparr>) NULL NULL,
      num_nodes = 1, leaf_nodes = 1, height = 1,
      ibt_show_value_w = None, ibt_delete_entry = None\<rparr>"

section \<open>Masks and key bits\<close>

lemma top_mask_level: "top_mask = level_mask 32"
  by (simp add: top_mask_def level_mask_def BITSPERWORD_def)

lemma drop_level_mask:
  assumes "n \<le> 32"
  shows "drop_bit 1 (level_mask n) = level_mask (n - 1)"
proof (cases n)
  case 0
  then show ?thesis by (simp add: level_mask_def)
next
  case (Suc m)
  show ?thesis
  proof (cases m)
    case 0
    with Suc show ?thesis by (simp add: level_mask_def)
  next
    case (Suc j)
    with \<open>n = Suc m\<close> assms have "j < 31" by simp
    then have "drop_bit 1 (2 ^ Suc j :: ikey_t) = 2 ^ j"
      using drop_bit_exp_eq [of 1 "Suc j", where ?'a = "32 word"]
      by (simp add: possible_bit_word)
    with Suc \<open>n = Suc m\<close> show ?thesis by (simp add: level_mask_def)
  qed
qed

lemma bit_odd_unat: "bit (w :: ikey_t) m \<longleftrightarrow> odd (unat w div 2 ^ m)"
  by (simp add: bit_iff_odd [of "unat w", symmetric] bit_unsigned_iff)

lemma and_level_mask:
  "0 < n \<Longrightarrow> (k AND level_mask n = 0) \<longleftrightarrow> even (unat k div 2 ^ (n - 1))"
  by (simp add: level_mask_def and_exp_eq_0_iff_not_bit bit_odd_unat)

lemma div_pow_step:
  "0 < n \<Longrightarrow> (a :: nat) div 2 ^ n = (a div 2 ^ (n - 1)) div 2"
  by (cases n) (simp_all add: div_mult2_eq [symmetric] mult.commute)

lemma wf_entries:
  "wf_node n p node \<Longrightarrow> x \<in> set (entries node) \<Longrightarrow> unat (key x) div 2 ^ n = p"
proof (induction node arbitrary: n p)
  case NULL
  then show ?case by simp
next
  case (Node_s e l r)
  show ?case
  proof (cases e)
    case (Some y)
    with Node_s.prems show ?thesis by simp
  next
    case None
    with Node_s.prems have n: "0 < n" and wl: "wf_node (n - 1) (2 * p) l"
      and wr: "wf_node (n - 1) (2 * p + 1) r" and x: "x \<in> set (entries l) \<or> x \<in> set (entries r)"
      by auto
    from x show ?thesis
    proof
      assume "x \<in> set (entries l)"
      from Node_s.IH(1) [OF wl this] show ?thesis using n by (simp add: div_pow_step)
    next
      assume "x \<in> set (entries r)"
      from Node_s.IH(2) [OF wr this] show ?thesis using n by (simp add: div_pow_step)
    qed
  qed
qed

lemma wf_nonempty: "wf_node n p node \<Longrightarrow> node \<noteq> NULL \<Longrightarrow> entries node \<noteq> []"
proof (induction node arbitrary: n p)
  case NULL
  then show ?case by simp
next
  case (Node_s e l r)
  then show ?case by (cases e) auto
qed

lemma and_exp_cases: "(k :: ikey_t) AND 2 ^ m = (if bit k m then 2 ^ m else 0)"
  by (rule bit_eqI) (auto simp: bit_and_iff bit_exp_iff)

lemma and_level_mask_eq:
  assumes "0 < n"
  shows "(k1 AND level_mask n = k2 AND level_mask n) \<longleftrightarrow>
         (even (unat k1 div 2 ^ (n - 1)) \<longleftrightarrow> even (unat k2 div 2 ^ (n - 1)))"
proof -
  have "(k1 AND 2 ^ (n - 1) = k2 AND 2 ^ (n - 1)) \<longleftrightarrow> (bit k1 (n - 1) \<longleftrightarrow> bit k2 (n - 1))"
    using and_exp_eq_0_iff_not_bit [of k1 "n - 1"] and_exp_eq_0_iff_not_bit [of k2 "n - 1"]
    by (auto simp: and_exp_cases split: if_splits)
  with assms show ?thesis by (simp add: level_mask_def bit_odd_unat)
qed

lemma parity_div:
  assumes "0 < n" "(a :: nat) div 2 ^ n = p"
  shows "a div 2 ^ (n - 1) = (if even (a div 2 ^ (n - 1)) then 2 * p else 2 * p + 1)"
  using assms by (auto simp: div_pow_step elim: evenE oddE)

lemma make_branch_wf:
  assumes "unat k1 div 2 ^ n = p" "unat (key e2) div 2 ^ n = p" "k1 \<noteq> key e2" "n \<le> 32"
  shows "\<exists>node' c. ibt_make_branch (Node_s None NULL NULL) k1 (key e2) (level_mask n) v (Some e2) nc bh
            = Some (node', nc + of_nat c, bh + of_nat (c - 1))
          \<and> wf_node n p node' \<and> node' \<noteq> NULL \<and> 2 \<le> c \<and> c \<le> n + 1
          \<and> count_nodes node' = c + 1 \<and> levels node' = c
          \<and> set (entries node') = {\<lparr>val = v, key = k1\<rparr>, e2}"
  using assms
proof (induction n arbitrary: p nc bh)
  case 0
  then show ?case by (simp add: word_unat_eq_iff)
next
  case (Suc m)
  let ?k2 = "key e2"
  let ?a1 = "unat k1 div 2 ^ m" and ?a2 = "unat ?k2 div 2 ^ m"
  have a1: "?a1 = (if even ?a1 then 2 * p else 2 * p + 1)"
    using parity_div [of "Suc m" "unat k1" p] Suc.prems(1) by simp
  have a2: "?a2 = (if even ?a2 then 2 * p else 2 * p + 1)"
    using parity_div [of "Suc m" "unat ?k2" p] Suc.prems(2) by simp
  have test0: "(k1 AND level_mask (Suc m) = 0) \<longleftrightarrow> even ?a1"
    using and_level_mask [of "Suc m" k1] by simp
  have testeq: "(k1 AND level_mask (Suc m) = ?k2 AND level_mask (Suc m)) \<longleftrightarrow> (even ?a1 \<longleftrightarrow> even ?a2)"
    using and_level_mask_eq [of "Suc m" k1 ?k2] by simp
  have drop: "drop_bit 1 (level_mask (Suc m)) = level_mask m"
    using drop_level_mask [of "Suc m"] Suc.prems(4) by simp
  show ?case
  proof (cases "even ?a1 \<longleftrightarrow> even ?a2")
    case same: True
    then have eq: "?a2 = ?a1" using a1 a2 by presburger
    from Suc.IH [of ?a1 "nc + 1" "bh + 1"] eq Suc.prems
    obtain child c where
      mb: "ibt_make_branch (Node_s None NULL NULL) k1 ?k2 (level_mask m) v (Some e2) (nc + 1) (bh + 1)
            = Some (child, nc + 1 + of_nat c, bh + 1 + of_nat (c - 1))"
      and ch: "wf_node m ?a1 child" "child \<noteq> NULL" "2 \<le> c" "c \<le> m + 1"
        "count_nodes child = c + 1" "set (entries child) = {\<lparr>val = v, key = k1\<rparr>, e2}"
        "levels child = c"
      by auto
    have cnt: "nc + 1 + of_nat c = nc + of_nat (Suc c)" "bh + 1 + of_nat (c - 1) = bh + of_nat (Suc c - 1)"
      using ch(3) by (cases c; simp)+
    show ?thesis
    proof (cases "even ?a1")
      case True
      with a1 have "?a1 = 2 * p" by simp
      with ch have "wf_node (Suc m) p (Node_s None child NULL)" by simp
      moreover have "ibt_make_branch (Node_s None NULL NULL) k1 ?k2 (level_mask (Suc m)) v (Some e2) nc bh
          = Some (Node_s None child NULL, nc + of_nat (Suc c), bh + of_nat (Suc c - 1))"
        using same True test0 testeq drop mb cnt
        by (subst ibt_make_branch.simps) (simp add: Let_def ibt_make_node_def)
      ultimately show ?thesis using ch
        by (intro exI [of _ "Node_s None child NULL"] exI [of _ "Suc c"]) simp
    next
      case False
      with a1 have "?a1 = 2 * p + 1" by simp
      with ch have "wf_node (Suc m) p (Node_s None NULL child)" by simp
      moreover have "ibt_make_branch (Node_s None NULL NULL) k1 ?k2 (level_mask (Suc m)) v (Some e2) nc bh
          = Some (Node_s None NULL child, nc + of_nat (Suc c), bh + of_nat (Suc c - 1))"
        using same False test0 testeq drop mb cnt
        by (subst ibt_make_branch.simps) (simp add: Let_def ibt_make_node_def)
      ultimately show ?thesis using ch
        by (intro exI [of _ "Node_s None NULL child"] exI [of _ "Suc c"]) simp
    qed
  next
    case diff: False
    show ?thesis
    proof (cases "even ?a1")
      case True
      with diff a1 a2 have v: "?a1 = 2 * p" "?a2 = 2 * p + 1" by auto
      let ?n' = "Node_s None (Node_s (Some \<lparr>val = v, key = k1\<rparr>) NULL NULL) (Node_s (Some e2) NULL NULL)"
      have "ibt_make_branch (Node_s None NULL NULL) k1 ?k2 (level_mask (Suc m)) v (Some e2) nc bh
          = Some (?n', nc + of_nat 2, bh + of_nat (2 - 1))"
        using diff True test0 testeq
        by (subst ibt_make_branch.simps) (simp add: Let_def ibt_make_leaf_def ibt_make_entry_def)
      moreover have "wf_node (Suc m) p ?n'" using v by simp
      ultimately show ?thesis
        by (intro exI [of _ ?n'] exI [of _ 2]) auto
    next
      case False
      with diff a1 a2 have v: "?a1 = 2 * p + 1" "?a2 = 2 * p" by auto
      let ?n' = "Node_s None (Node_s (Some e2) NULL NULL) (Node_s (Some \<lparr>val = v, key = k1\<rparr>) NULL NULL)"
      have "ibt_make_branch (Node_s None NULL NULL) k1 ?k2 (level_mask (Suc m)) v (Some e2) nc bh
          = Some (?n', nc + of_nat 2, bh + of_nat (2 - 1))"
        using diff False test0 testeq
        by (subst ibt_make_branch.simps) (simp add: Let_def ibt_make_leaf_def ibt_make_entry_def)
      moreover have "wf_node (Suc m) p ?n'" using v by simp
      ultimately show ?thesis
        by (intro exI [of _ ?n'] exI [of _ 2]) auto
    qed
  qed
qed

lemma levels_pos: "node \<noteq> NULL \<Longrightarrow> 0 < levels node"
  by (cases node) simp_all

lemma insert_loop_wf:
  assumes "wf_node n p node" "node \<noteq> NULL" "unat k div 2 ^ n = p" "n \<le> 32"
  shows "\<exists>node' c d. ibt_insert_loop node k v (level_mask n) nn bh
            = Some (node', nn + of_nat c, bh + of_nat d)
          \<and> wf_node n p node' \<and> node' \<noteq> NULL \<and> c \<le> n + 1 \<and> d \<le> n
          \<and> count_nodes node' = count_nodes node + c
          \<and> levels node' = max (levels node) (Suc d)
          \<and> set (entries node') =
               (if k \<in> node_keys node then set (entries node)
                else insert \<lparr>val = v, key = k\<rparr> (set (entries node)))
          \<and> (k \<in> node_keys node \<longrightarrow> node' = node \<and> c = 0)"
  using assms
proof (induction node arbitrary: n p nn bh)
  case NULL
  then show ?case by simp
next
  case (Node_s e l r)
  show ?case
  proof (cases e)
    case (Some x)
    with Node_s.prems have leaf: "l = NULL" "r = NULL" and px: "unat (key x) div 2 ^ n = p"
      by auto
    show ?thesis
    proof (cases "k = key x")
      case True
      with Some leaf Node_s.prems show ?thesis
        by (intro exI [of _ "Node_s e l r"] exI [of _ 0]) (simp add: node_keys_def)
    next
      case False
      from make_branch_wf [OF Node_s.prems(3) px False Node_s.prems(4), of v nn bh]
      obtain node' c where
        mb: "ibt_make_branch (Node_s None NULL NULL) k (key x) (level_mask n) v (Some x) nn bh
              = Some (node', nn + of_nat c, bh + of_nat (c - 1))"
        and nd: "wf_node n p node'" "node' \<noteq> NULL" "2 \<le> c" "c \<le> n + 1"
          "count_nodes node' = c + 1" "set (entries node') = {\<lparr>val = v, key = k\<rparr>, x}"
          "levels node' = c"
        by blast
      from mb Some leaf False
      have "ibt_insert_loop (Node_s e l r) k v (level_mask n) nn bh
              = Some (node', nn + of_nat c, bh + of_nat (c - 1))"
        by simp
      with nd Some leaf False show ?thesis
        by (intro exI [of _ node'] exI [of _ c] exI [of _ "c - 1"]) (auto simp: node_keys_def)
    qed
  next
    case None
    with Node_s.prems have n: "0 < n" and kids: "l \<noteq> NULL \<or> r \<noteq> NULL"
      and wl: "wf_node (n - 1) (2 * p) l" and wr: "wf_node (n - 1) (2 * p + 1) r"
      by auto
    let ?a = "unat k div 2 ^ (n - 1)"
    have a: "?a = (if even ?a then 2 * p else 2 * p + 1)"
      using parity_div [OF n Node_s.prems(3)] .
    have test0: "(k AND level_mask n = 0) \<longleftrightarrow> even ?a"
      using and_level_mask [OF n] .
    have drop: "drop_bit 1 (level_mask n) = level_mask (n - 1)"
      using drop_level_mask [OF Node_s.prems(4)] .
    have n1: "n - 1 \<le> 32" using Node_s.prems(4) by simp
    have notl: "k \<notin> node_keys l" if "odd ?a"
    proof
      assume "k \<in> node_keys l"
      then obtain x where "x \<in> set (entries l)" "key x = k" by (auto simp: node_keys_def)
      with wf_entries [OF wl] have "?a = 2 * p" by auto
      with that show False by simp
    qed
    have notr: "k \<notin> node_keys r" if "even ?a"
    proof
      assume "k \<in> node_keys r"
      then obtain x where "x \<in> set (entries r)" "key x = k" by (auto simp: node_keys_def)
      with wf_entries [OF wr] have "?a = 2 * p + 1" by auto
      with that show False by simp
    qed
    have keys_node: "node_keys (Node_s e l r) = node_keys l \<union> node_keys r"
      using None by (auto simp: node_keys_def)
    show ?thesis
    proof (cases "even ?a")
      case True
      with a have ap: "?a = 2 * p" by simp
      show ?thesis
      proof (cases "l = NULL")
        case lnull: True
        let ?n' = "Node_s e (Node_s (Some \<lparr>val = v, key = k\<rparr>) NULL NULL) r"
        have "ibt_insert_loop (Node_s e l r) k v (level_mask n) nn bh
                = Some (?n', nn + of_nat 1, bh + of_nat 1)"
          using lnull kids True test0 by (simp add: ibt_make_leaf_def ibt_make_entry_def)
        moreover have "wf_node n p ?n'" using None n wr ap by simp
        moreover have "k \<notin> node_keys (Node_s e l r)"
          using notr [OF True] lnull keys_node by (simp add: node_keys_def)
        ultimately show ?thesis using lnull None n kids levels_pos [of r]
          by (intro exI [of _ ?n'] exI [of _ 1]) auto
      next
        case lnn: False
        from Node_s.IH(1) [OF wl lnn ap n1, of nn "bh + 1"]
        obtain l' c d where
          rec: "ibt_insert_loop l k v (level_mask (n - 1)) nn (bh + 1)
                  = Some (l', nn + of_nat c, bh + 1 + of_nat d)"
          and l': "wf_node (n - 1) (2 * p) l'" "l' \<noteq> NULL" "c \<le> n - 1 + 1" "d \<le> n - 1"
            "count_nodes l' = count_nodes l + c" "levels l' = max (levels l) (Suc d)"
            "set (entries l') = (if k \<in> node_keys l then set (entries l)
                else insert \<lparr>val = v, key = k\<rparr> (set (entries l)))"
            "k \<in> node_keys l \<longrightarrow> l' = l \<and> c = 0"
          by blast
        have "ibt_insert_loop (Node_s e l r) k v (level_mask n) nn bh
                = Some (Node_s e l' r, nn + of_nat c, bh + of_nat (Suc d))"
          using lnn True test0 drop rec by (simp add: add.assoc)
        moreover have "wf_node n p (Node_s e l' r)" using None n wr l' by simp
        moreover have "k \<in> node_keys (Node_s e l r) \<longleftrightarrow> k \<in> node_keys l"
          using notr [OF True] keys_node by simp
        ultimately show ?thesis using l' None n
          by (intro exI [of _ "Node_s e l' r"] exI [of _ c] exI [of _ "Suc d"]) auto
      qed
    next
      case False
      with a have ap: "?a = 2 * p + 1" by simp
      show ?thesis
      proof (cases "r = NULL")
        case rnull: True
        let ?n' = "Node_s e l (Node_s (Some \<lparr>val = v, key = k\<rparr>) NULL NULL)"
        have "ibt_insert_loop (Node_s e l r) k v (level_mask n) nn bh
                = Some (?n', nn + of_nat 1, bh + of_nat 1)"
          using rnull kids False test0 by (simp add: ibt_make_leaf_def ibt_make_entry_def)
        moreover have "wf_node n p ?n'" using None n wl ap by simp
        moreover have "k \<notin> node_keys (Node_s e l r)"
          using notl [OF False] rnull keys_node by (simp add: node_keys_def)
        ultimately show ?thesis using rnull None n kids levels_pos [of l]
          by (intro exI [of _ ?n'] exI [of _ 1]) auto
      next
        case rnn: False
        from Node_s.IH(2) [OF wr rnn ap n1, of nn "bh + 1"]
        obtain r' c d where
          rec: "ibt_insert_loop r k v (level_mask (n - 1)) nn (bh + 1)
                  = Some (r', nn + of_nat c, bh + 1 + of_nat d)"
          and r': "wf_node (n - 1) (2 * p + 1) r'" "r' \<noteq> NULL" "c \<le> n - 1 + 1" "d \<le> n - 1"
            "count_nodes r' = count_nodes r + c" "levels r' = max (levels r) (Suc d)"
            "set (entries r') = (if k \<in> node_keys r then set (entries r)
                else insert \<lparr>val = v, key = k\<rparr> (set (entries r)))"
            "k \<in> node_keys r \<longrightarrow> r' = r \<and> c = 0"
          by blast
        have "ibt_insert_loop (Node_s e l r) k v (level_mask n) nn bh
                = Some (Node_s e l r', nn + of_nat c, bh + of_nat (Suc d))"
          using rnn False test0 drop rec by (simp add: add.assoc)
        moreover have "wf_node n p (Node_s e l r')" using None n wl r' by simp
        moreover have "k \<in> node_keys (Node_s e l r) \<longleftrightarrow> k \<in> node_keys r"
          using notl [OF False] keys_node by simp
        ultimately show ?thesis using r' None n
          by (intro exI [of _ "Node_s e l r'"] exI [of _ c] exI [of _ "Suc d"]) auto
      qed
    qed
  qed
qed

lemma wf_levels: "wf_node n p node \<Longrightarrow> levels node \<le> n + 1"
proof (induction node arbitrary: n p)
  case NULL
  then show ?case by simp
next
  case (Node_s e l r)
  show ?case
  proof (cases e)
    case (Some x)
    with Node_s.prems show ?thesis by simp
  next
    case None
    with Node_s.prems have "0 < n" "wf_node (n - 1) (2 * p) l" "wf_node (n - 1) (2 * p + 1) r"
      by auto
    with Node_s.IH(1) [of "n - 1" "2 * p"] Node_s.IH(2) [of "n - 1" "2 * p + 1"]
    show ?thesis by simp
  qed
qed

lemma wf_node_ok: "wf_node n p node \<Longrightarrow> node_ok node"
proof (induction node arbitrary: n p)
  case NULL
  then show ?case by simp
next
  case (Node_s e l r)
  then show ?case by (cases e) auto
qed

lemma key_top: "unat (k :: ikey_t) div 2 ^ 32 = 0"
  using unsigned_less [of k, where ?'a = nat] by simp

lemma size_t_less: "a \<le> 33 \<Longrightarrow> b \<le> 33 \<Longrightarrow> (of_nat a :: size_t) < of_nat b \<longleftrightarrow> a < b"
  by (simp add: word_less_nat_alt unat_of_nat)

lemma size_t_max:
  assumes "a \<le> 33" "d \<le> 32"
  shows "(if (of_nat a :: size_t) < 1 + of_nat d then 1 + of_nat d else of_nat a)
           = (of_nat (max a (Suc d)) :: size_t)"
proof -
  have "(1 :: size_t) + of_nat d = of_nat (Suc d)" by simp
  moreover have "(of_nat a :: size_t) < of_nat (Suc d) \<longleftrightarrow> a < Suc d"
    using assms by (intro size_t_less) simp_all
  ultimately show ?thesis by (simp add: max_def not_less del: of_nat_Suc)
qed

lemma ibt_insert_inv:
  assumes "trie_inv t"
  shows "\<exists>t' c. ibt_insert t k v = Some t' \<and> trie_inv t' \<and> c \<le> 33
           \<and> num_nodes t' = num_nodes t + of_nat c
           \<and> count_nodes (root t') = count_nodes (root t) + c
           \<and> leaf_nodes t' = leaf_nodes t + 1
           \<and> ibt_show_value_w t' = ibt_show_value_w t
           \<and> ibt_delete_entry t' = ibt_delete_entry t
           \<and> root t' \<noteq> NULL
           \<and> set (entries (root t')) =
                (if k \<in> node_keys (root t) then set (entries (root t))
                 else insert \<lparr>val = v, key = k\<rparr> (set (entries (root t))))
           \<and> (k \<in> node_keys (root t) \<longrightarrow> t' = t\<lparr>leaf_nodes := leaf_nodes t + 1\<rparr>)"
proof (cases "root t = NULL")
  case True
  let ?t' = "t\<lparr>leaf_nodes := leaf_nodes t + 1, root := Node_s (Some \<lparr>val = v, key = k\<rparr>) NULL NULL,
                height := 1, num_nodes := 1\<rparr>"
  have ins: "ibt_insert t k v = Some ?t'"
    using True by (simp add: ibt_insert_def ibt_make_leaf_def ibt_make_entry_def)
  have "trie_inv ?t'" using key_top [of k] by (simp add: trie_inv_def)
  moreover have "num_nodes t = 0" using assms True by (simp add: trie_inv_def)
  ultimately show ?thesis using ins True
    by (intro exI [of _ ?t'] exI [of _ 1]) (simp add: node_keys_def)
next
  case False
  from assms have wf: "wf_node 32 0 (root t)" and nn: "num_nodes t = of_nat (count_nodes (root t))"
    and ht: "height t = of_nat (levels (root t))"
    by (simp_all add: trie_inv_def)
  from insert_loop_wf [OF wf False key_top, of k v "num_nodes t" 1]
  obtain node' c d where
    loop: "ibt_insert_loop (root t) k v (level_mask 32) (num_nodes t) 1
             = Some (node', num_nodes t + of_nat c, 1 + of_nat d)"
    and nd: "wf_node 32 0 node'" "node' \<noteq> NULL" "c \<le> 32 + 1" "d \<le> 32"
      "count_nodes node' = count_nodes (root t) + c"
      "levels node' = max (levels (root t)) (Suc d)"
      "set (entries node') = (if k \<in> node_keys (root t) then set (entries (root t))
          else insert \<lparr>val = v, key = k\<rparr> (set (entries (root t))))"
      "k \<in> node_keys (root t) \<longrightarrow> node' = root t \<and> c = 0"
    by auto
  have lv: "levels (root t) \<le> 33" using wf_levels [OF wf] by simp
  let ?h = "of_nat (max (levels (root t)) (Suc d)) :: size_t"
  let ?t' = "t\<lparr>leaf_nodes := leaf_nodes t + 1, root := node',
                num_nodes := num_nodes t + of_nat c, height := ?h\<rparr>"
  have hmax: "(if (of_nat (levels (root t)) :: size_t) < 1 + of_nat d then 1 + of_nat d
               else of_nat (levels (root t))) = ?h"
    using size_t_max [OF lv nd(4)] .
  have ins: "ibt_insert t k v = Some ?t'"
  proof (cases "(of_nat (levels (root t)) :: size_t) < 1 + of_nat d")
    case True
    with hmax have "?h = 1 + of_nat d" by simp
    with True loop False ht show ?thesis
      by (simp add: ibt_insert_def ibt_insert_iter_def top_mask_level)
  next
    case False
    with hmax have "?h = of_nat (levels (root t))" by simp
    with False loop \<open>root t \<noteq> NULL\<close> ht show ?thesis
      by (simp add: ibt_insert_def ibt_insert_iter_def top_mask_level)
  qed
  have inv: "trie_inv ?t'"
    using nd nn by (simp add: trie_inv_def)
  have dup: "?t' = t\<lparr>leaf_nodes := leaf_nodes t + 1\<rparr>" if "k \<in> node_keys (root t)"
  proof -
    from that nd(8) have "node' = root t" "c = 0" by simp_all
    moreover from this nd(6) have "max (levels (root t)) (Suc d) = levels (root t)" by simp
    ultimately show ?thesis using ht by simp
  qed
  show ?thesis using ins inv nd dup
    by (intro exI [of _ ?t'] exI [of _ c]) simp
qed

section \<open>Tries built by insertions\<close>

lemma ibt_inserts_inv:
  assumes "trie_inv t"
  shows "\<exists>t'. ibt_inserts t kvs = Some t' \<and> trie_inv t'
           \<and> leaf_nodes t' = leaf_nodes t + of_nat (length kvs)
           \<and> ibt_show_value_w t' = ibt_show_value_w t
           \<and> ibt_delete_entry t' = ibt_delete_entry t
           \<and> (root t' = NULL \<longleftrightarrow> root t = NULL \<and> kvs = [])
           \<and> set (entries (root t')) =
                set (entries (root t))
                \<union> {\<lparr>val = v, key = k\<rparr> |k v. map_of kvs k = Some v \<and> k \<notin> node_keys (root t)}"
  using assms
proof (induction kvs arbitrary: t)
  case Nil
  then show ?case by simp
next
  case (Cons kv kvs)
  obtain k v where kv: "kv = (k, v)" by (cases kv)
  from ibt_insert_inv [OF Cons.prems, of k v]
  obtain t1 where
    ins: "ibt_insert t k v = Some t1" and inv1: "trie_inv t1"
    and t1: "leaf_nodes t1 = leaf_nodes t + 1" "ibt_show_value_w t1 = ibt_show_value_w t"
      "ibt_delete_entry t1 = ibt_delete_entry t" "root t1 \<noteq> NULL"
    and ent1: "set (entries (root t1)) =
        (if k \<in> node_keys (root t) then set (entries (root t))
         else insert \<lparr>val = v, key = k\<rparr> (set (entries (root t))))"
    by blast
  from Cons.IH [OF inv1]
  obtain t' where
    rest: "ibt_inserts t1 kvs = Some t'" and inv': "trie_inv t'"
    and t': "leaf_nodes t' = leaf_nodes t1 + of_nat (length kvs)"
      "ibt_show_value_w t' = ibt_show_value_w t1" "ibt_delete_entry t' = ibt_delete_entry t1"
      "root t' = NULL \<longleftrightarrow> root t1 = NULL \<and> kvs = []"
    and ent': "set (entries (root t')) = set (entries (root t1))
        \<union> {\<lparr>val = v, key = k\<rparr> |k v. map_of kvs k = Some v \<and> k \<notin> node_keys (root t1)}"
    by blast
  have keys1: "node_keys (root t1) = insert k (node_keys (root t))"
    using ent1 by (auto simp: node_keys_def)
  have "set (entries (root t')) = set (entries (root t))
        \<union> {\<lparr>val = v', key = k'\<rparr> |k' v'. map_of ((k, v) # kvs) k' = Some v' \<and> k' \<notin> node_keys (root t)}"
    unfolding ent' keys1 ent1 by (auto simp: node_keys_def)
  with ins rest inv' t1 t' kv show ?case by simp
qed

lemma create_inv: "ibt_create True sf df = Some t \<Longrightarrow> trie_inv t \<and> root t = NULL \<and> leaf_nodes t = 0
    \<and> ibt_show_value_w t = sf \<and> ibt_delete_entry t = df"
  by (auto simp: ibt_create_def trie_inv_def)

lemma build_inv:
  "\<exists>t. build sf df kvs = Some t \<and> trie_inv t
        \<and> leaf_nodes t = of_nat (length kvs)
        \<and> ibt_show_value_w t = sf \<and> ibt_delete_entry t = df
        \<and> (root t = NULL \<longleftrightarrow> kvs = [])
        \<and> set (entries (root t)) = {\<lparr>val = v, key = k\<rparr> |k v. map_of kvs k = Some v}"
proof -
  obtain t0 where c: "ibt_create True sf df = Some (t0 :: ('a, 'b) Trie_s)"
    by (simp add: ibt_create_def)
  note t0 = create_inv [OF c]
  from t0 have inv0: "trie_inv t0" by simp
  from ibt_inserts_inv [OF inv0, of kvs] t0 c show ?thesis
    by (auto simp: build_def node_keys_def)
qed

section \<open>Running the code on given keys\<close>

lemma make_branch_same_left:
  "key1 AND msk = key2 AND msk \<Longrightarrow> key1 AND msk = 0 \<Longrightarrow>
   ibt_make_branch (Node_s e l r) key1 key2 msk val1 entry2 nc bh =
     (ibt_make_branch ibt_make_node key1 key2 (drop_bit 1 msk) val1 entry2 (nc + 1) (bh + 1)
       \<bind> (\<lambda>(child, nc', bh'). Some (Node_s e child r, nc', bh')))"
  by (subst ibt_make_branch.simps) (simp add: Let_def)

lemma make_branch_same_right:
  "key1 AND msk = key2 AND msk \<Longrightarrow> key1 AND msk \<noteq> 0 \<Longrightarrow>
   ibt_make_branch (Node_s e l r) key1 key2 msk val1 entry2 nc bh =
     (ibt_make_branch ibt_make_node key1 key2 (drop_bit 1 msk) val1 entry2 (nc + 1) (bh + 1)
       \<bind> (\<lambda>(child, nc', bh'). Some (Node_s e l child, nc', bh')))"
  by (subst ibt_make_branch.simps) (simp add: Let_def)

lemma make_branch_differ:
  "key1 AND msk \<noteq> key2 AND msk \<Longrightarrow>
   ibt_make_branch (Node_s e l r) key1 key2 msk val1 entry2 nc bh =
     (if key1 AND msk = 0 then
        Some (Node_s e (ibt_make_leaf (ibt_make_entry key1 val1)) (ibt_make_leaf entry2),
              nc + 2, bh + 1)
      else
        Some (Node_s e (ibt_make_leaf entry2) (ibt_make_leaf (ibt_make_entry key1 val1)),
              nc + 2, bh + 1))"
  by (subst ibt_make_branch.simps) (simp add: Let_def)

lemmas run_simps =
  build_def ibt_create_def ibt_insert_def ibt_insert_iter_def top_mask_def BITSPERWORD_def
  ibt_make_leaf_def ibt_make_entry_def ibt_make_node_def
  make_branch_same_left make_branch_same_right make_branch_differ

lemma counters_1_3:
  "map_option (\<lambda>t. (height t, num_nodes t, leaf_nodes t)) (build sf df [(1, a), (3, b)])
     = Some (32, 33, 2)"
  by (simp add: run_simps)

lemma counters_0_1:
  "map_option (\<lambda>t. (height t, num_nodes t, leaf_nodes t)) (build sf df [(0, a), (1, b)])
     = Some (33, 34, 2)"
  by (simp add: run_simps)

section \<open>Search and the shape of nodes\<close>

lemma closest_ok:
  "node_ok node \<Longrightarrow> node \<noteq> NULL \<Longrightarrow>
     \<exists>x. ibt_closest_match_rec node mode = Some (Some x) \<and> x \<in> set (entries node)"
proof (induction node arbitrary: mode)
  case NULL
  then show ?case by simp
next
  case (Node_s e l r)
  show ?case
  proof (cases "l = NULL \<and> r = NULL")
    case True
    with Node_s.prems show ?thesis by auto
  next
    case False
    with Node_s.prems have ok: "node_ok l" "node_ok r" "e = None" by auto
    show ?thesis
    proof (cases "mode = CHR ''l''")
      case left: True
      show ?thesis
      proof (cases "l = NULL")
        case True
        with False have "r \<noteq> NULL" by simp
        from Node_s.IH(2) [OF ok(2) this, of "CHR ''l''"] True left False show ?thesis by auto
      next
        case lnn: False
        from Node_s.IH(1) [OF ok(1) this, of "CHR ''l''"] lnn left show ?thesis by auto
      qed
    next
      case right: False
      show ?thesis
      proof (cases "r = NULL")
        case True
        with False have "l \<noteq> NULL" by simp
        from Node_s.IH(1) [OF ok(1) this, of "CHR ''r''"] True right False show ?thesis by auto
      next
        case rnn: False
        from Node_s.IH(2) [OF ok(2) this, of "CHR ''r''"] rnn right show ?thesis by auto
      qed
    qed
  qed
qed

lemma closest_spec:
  "node \<noteq> NULL \<Longrightarrow>
     ibt_closest_match_rec node mode
       = Some (spec_closest (if mode = CHR ''l'' then Bias_Left else Bias_Right) node)"
proof (induction node arbitrary: mode)
  case NULL
  then show ?case by simp
next
  case (Node_s e l r)
  show ?case
    using Node_s.IH(1) [of "CHR ''l''"] Node_s.IH(1) [of "CHR ''r''"]
      Node_s.IH(2) [of "CHR ''l''"] Node_s.IH(2) [of "CHR ''r''"]
    by auto
qed

lemma search_ok:
  "node_ok node \<Longrightarrow> node \<noteq> NULL \<Longrightarrow>
     \<exists>x. ibt_search_rec node k msk = Some (Some x) \<and> x \<in> set (entries node)"
proof (induction node arbitrary: msk)
  case NULL
  then show ?case by simp
next
  case (Node_s e l r)
  show ?case
  proof (cases "l = NULL \<and> r = NULL")
    case True
    with Node_s.prems show ?thesis by auto
  next
    case False
    with Node_s.prems have ok: "node_ok l" "node_ok r" "e = None" by auto
    show ?thesis
    proof (cases "k AND msk = 0")
      case zero: True
      show ?thesis
      proof (cases "l = NULL")
        case True
        with False have "r \<noteq> NULL" by simp
        from closest_ok [OF ok(2) this, of "CHR ''l''"] True zero False show ?thesis by auto
      next
        case lnn: False
        from Node_s.IH(1) [OF ok(1) this, of "drop_bit 1 msk"] lnn zero show ?thesis by auto
      qed
    next
      case one: False
      show ?thesis
      proof (cases "r = NULL")
        case True
        with False have "l \<noteq> NULL" by simp
        from closest_ok [OF ok(1) this, of "CHR ''r''"] True one False show ?thesis by auto
      next
        case rnn: False
        from Node_s.IH(2) [OF ok(2) this, of "drop_bit 1 msk"] rnn one show ?thesis by auto
      qed
    qed
  qed
qed

lemma search_exact:
  "wf_node n p node \<Longrightarrow> n \<le> 32 \<Longrightarrow> x \<in> set (entries node) \<Longrightarrow>
     ibt_search_rec node (key x) (level_mask n) = Some (Some x)"
proof (induction node arbitrary: n p)
  case NULL
  then show ?case by simp
next
  case (Node_s e l r)
  show ?case
  proof (cases e)
    case (Some y)
    with Node_s.prems show ?thesis by auto
  next
    case None
    with Node_s.prems have n: "0 < n" and kids: "l \<noteq> NULL \<or> r \<noteq> NULL"
      and wl: "wf_node (n - 1) (2 * p) l" and wr: "wf_node (n - 1) (2 * p + 1) r"
      and x: "x \<in> set (entries l) \<or> x \<in> set (entries r)"
      by auto
    have drop: "drop_bit 1 (level_mask n) = level_mask (n - 1)"
      using drop_level_mask [OF Node_s.prems(2)] .
    have n1: "n - 1 \<le> 32" using Node_s.prems(2) by simp
    from x show ?thesis
    proof
      assume xl: "x \<in> set (entries l)"
      then have "l \<noteq> NULL" by auto
      moreover from wf_entries [OF wl xl] have "key x AND level_mask n = 0"
        using and_level_mask [OF n, of "key x"] by simp
      ultimately show ?thesis
        using Node_s.IH(1) [OF wl n1 xl] drop by simp
    next
      assume xr: "x \<in> set (entries r)"
      then have "r \<noteq> NULL" by auto
      moreover from wf_entries [OF wr xr] have "key x AND level_mask n \<noteq> 0"
        using and_level_mask [OF n, of "key x"] by simp
      ultimately show ?thesis
        using Node_s.IH(2) [OF wr n1 xr] drop by simp
    qed
  qed
qed

lemma search_divert:
  "spec_descent node (bits_from n k) = Some (b, s) \<Longrightarrow> n \<le> 32 \<Longrightarrow>
     ibt_search_rec node k (level_mask n) = Some (spec_closest s b)"
proof (induction node arbitrary: n)
  case NULL
  then show ?case by simp
next
  case (Node_s e l r)
  show ?case
  proof (cases n)
    case 0
    with Node_s.prems show ?thesis by simp
  next
    case (Suc m)
    have test: "(k AND level_mask n = 0) \<longleftrightarrow> \<not> bit k m"
      using Suc by (simp add: level_mask_def and_exp_eq_0_iff_not_bit)
    have drop: "drop_bit 1 (level_mask n) = level_mask m"
      using drop_level_mask [OF Node_s.prems(2)] Suc by simp
    have m: "m \<le> 32" using Suc Node_s.prems(2) by simp
    from Node_s.prems(1) Suc
    have sd: "(if l = NULL \<and> r = NULL then None
      else if \<not> bit k m then
        (if l = NULL then Some (Node_s e l r, Bias_Left) else spec_descent l (bits_from m k))
      else
        (if r = NULL then Some (Node_s e l r, Bias_Right) else spec_descent r (bits_from m k)))
      = Some (b, s)"
      by simp
    then have kids: "\<not> (l = NULL \<and> r = NULL)" by (auto split: if_splits)
    show ?thesis
    proof (cases "bit k m")
      case False
      show ?thesis
      proof (cases "l = NULL")
        case True
        with sd kids False have bs: "b = Node_s e l r" "s = Bias_Left" and r: "r \<noteq> NULL" by auto
        from closest_spec [OF r, of "CHR ''l''"] bs True r test False show ?thesis by simp
      next
        case lnn: False
        with sd kids False have "spec_descent l (bits_from m k) = Some (b, s)" by simp
        from Node_s.IH(1) [OF this m] lnn test False drop show ?thesis by simp
      qed
    next
      case True
      show ?thesis
      proof (cases "r = NULL")
        case rnull: True
        with sd kids True have bs: "b = Node_s e l r" "s = Bias_Right" and l: "l \<noteq> NULL" by auto
        from closest_spec [OF l, of "CHR ''r''"] bs rnull l test True show ?thesis by simp
      next
        case rnn: False
        with sd kids True have "spec_descent r (bits_from m k) = Some (b, s)" by simp
        from Node_s.IH(2) [OF this m] rnn test True drop show ?thesis by simp
      qed
    qed
  qed
qed


lemma spec_descent_side:
  "spec_descent node bs = Some (b, s) \<Longrightarrow>
     b \<noteq> NULL \<and> (s = Bias_Left \<longrightarrow> left b = NULL \<and> right b \<noteq> NULL)
       \<and> (s = Bias_Right \<longrightarrow> right b = NULL \<and> left b \<noteq> NULL)"
proof (induction node bs rule: spec_descent.induct)
  case (1 bs)
  then show ?case by simp
next
  case (2 e l r)
  then show ?case by simp
next
  case (3 e l r c cs)
  then show ?case by (auto split: if_splits)
qed

lemma make_branch_ok:
  assumes "ibt_make_branch cur k1 k2 msk v e2 nc bh = Some y"
  shows "cur = Node_s None NULL NULL \<longrightarrow> e2 \<noteq> None \<longrightarrow> node_ok (fst y) \<and> fst y \<noteq> NULL"
proof (rule ibt_make_branch.raw_induct
    [where P = "\<lambda>cur k1 k2 msk v e2 nc bh y.
       cur = Node_s None NULL NULL \<longrightarrow> e2 \<noteq> None \<longrightarrow> node_ok (fst y) \<and> fst y \<noteq> NULL",
     OF _ assms], goal_cases)
  case (1 f cur key1 key2 msk val1 entry2 nc bh y)
  show ?case
  proof (intro impI)
    assume cur: "cur = Node_s None NULL NULL" and e2: "entry2 \<noteq> None"
    show "node_ok (fst y) \<and> fst y \<noteq> NULL"
    proof (cases "key1 AND msk = key2 AND msk")
      case True
      with 1(2) cur obtain child nc' bh' where
        rec: "f ibt_make_node key1 key2 (drop_bit 1 msk) val1 entry2 (nc + 1) (bh + 1)
                = Some (child, nc', bh')"
        and y: "y = (if key1 AND msk = 0 then (Node_s None child NULL, nc', bh')
                     else (Node_s None NULL child, nc', bh'))"
        by (auto simp: Let_def split: if_splits Option.bind_splits)
      from 1(1) [OF rec] e2 have "node_ok child \<and> child \<noteq> NULL"
        by (simp add: ibt_make_node_def)
      with y show ?thesis by simp
    next
      case False
      with 1(2) cur e2 show ?thesis
        by (auto simp: Let_def ibt_make_leaf_def ibt_make_entry_def split: if_splits)
    qed
  qed
qed

lemma insert_loop_ok:
  "node_ok node \<Longrightarrow> ibt_insert_loop node k v msk nn bh = Some y \<Longrightarrow>
     node_ok (fst y) \<and> fst y \<noteq> NULL"
proof (induction node arbitrary: msk nn bh y)
  case NULL
  then show ?case by simp
next
  case (Node_s e l r)
  show ?case
  proof (cases "r = NULL \<and> l = NULL")
    case True
    with Node_s.prems obtain x where x: "e = Some x" by auto
    show ?thesis
    proof (cases "k = key x")
      case True
      with Node_s.prems x \<open>r = NULL \<and> l = NULL\<close> show ?thesis by auto
    next
      case False
      with Node_s.prems(2) x True
      have "ibt_make_branch (Node_s None NULL NULL) k (key x) msk v (Some x) nn bh = Some y"
        by simp
      from make_branch_ok [OF this] show ?thesis by simp
    qed
  next
    case False
    with Node_s.prems have ok: "node_ok l" "node_ok r" "e = None" by auto
    show ?thesis
    proof (cases "k AND msk = 0")
      case zero: True
      show ?thesis
      proof (cases "l = NULL")
        case True
        with Node_s.prems(2) False zero ok show ?thesis
          by (auto simp: ibt_make_leaf_def ibt_make_entry_def)
      next
        case lnn: False
        with Node_s.prems(2) False zero obtain y' where
          rec: "ibt_insert_loop l k v (drop_bit 1 msk) nn (bh + 1) = Some y'"
          and y: "fst y = Node_s e (fst y') r"
          by (auto split: Option.bind_splits)
        from Node_s.IH(1) [OF ok(1) rec] y ok show ?thesis by simp
      qed
    next
      case one: False
      show ?thesis
      proof (cases "r = NULL")
        case True
        with Node_s.prems(2) False one ok show ?thesis
          by (auto simp: ibt_make_leaf_def ibt_make_entry_def)
      next
        case rnn: False
        with Node_s.prems(2) False one obtain y' where
          rec: "ibt_insert_loop r k v (drop_bit 1 msk) nn (bh + 1) = Some y'"
          and y: "fst y = Node_s e l (fst y')"
          by (auto split: Option.bind_splits)
        from Node_s.IH(2) [OF ok(2) rec] y ok show ?thesis by simp
      qed
    qed
  qed
qed

lemma ibt_insert_ok:
  assumes "node_ok (root t)" "ibt_insert t k v = Some t'"
  shows "node_ok (root t') \<and> root t' \<noteq> NULL"
proof (cases "root t = NULL")
  case True
  with assms(2) show ?thesis
    by (auto simp: ibt_insert_def ibt_make_leaf_def ibt_make_entry_def)
next
  case False
  with assms(2) obtain y where
    loop: "ibt_insert_loop (root t) k v top_mask (num_nodes t) 1 = Some y"
    and t': "root t' = fst y"
    by (auto simp: ibt_insert_def ibt_insert_iter_def split: Option.bind_splits if_splits)
  from insert_loop_ok [OF assms(1) loop] t' show ?thesis by simp
qed

section \<open>The sample trie\<close>

lemma build_two_key_trie:
  "build None None [(0x80000000, ''a''), (0xC0000000, ''b'')] = Some two_key_trie"
  by (simp add: run_simps two_key_trie_def)

lemma descent_two_key_trie:
  "spec_descent (root two_key_trie) (key_bits 5) = Some (root two_key_trie, Bias_Left)"
  by (simp add: two_key_trie_def key_bits_def eval_nat_numeral)

lemma insert_5_two_key_trie: "\<exists>t2. ibt_insert two_key_trie 5 ''c'' = Some t2"
  by (simp add: two_key_trie_def run_simps)

lemma build_logging_trie:
  "build (Some log_key) None [(0xC0000000, ''b''), (0x80000000, ''a'')] = Some logging_trie"
  by (simp add: run_simps logging_trie_def two_key_trie_def)

lemma build_one_key_trie: "build None None [(5, ''a'')] = Some one_key_trie"
  by (simp add: run_simps one_key_trie_def)

section \<open>Facts about built tries\<close>

lemma built_inv:
  assumes "build sf df kvs = Some t"
  shows "trie_inv t" "leaf_nodes t = of_nat (length kvs)"
    "ibt_show_value_w t = sf" "ibt_delete_entry t = df"
    "root t = NULL \<longleftrightarrow> kvs = []"
    "set (entries (root t)) = {\<lparr>val = v, key = k\<rparr> |k v. map_of kvs k = Some v}"
  using build_inv [of sf df kvs] assms by auto

lemma built_node_ok: "build sf df kvs = Some t \<Longrightarrow> node_ok (root t)"
  using built_inv(1) [of sf df kvs t] by (auto simp: trie_inv_def intro: wf_node_ok)

lemma built_search:
  assumes "build sf df kvs = Some t" "root t \<noteq> NULL"
  shows "\<exists>e. ibt_search t k w = Some (Returned (Some e) t w) \<and> e \<in> set (entries (root t))"
  using search_ok [OF built_node_ok [OF assms(1)] assms(2), of k top_mask] assms(2)
  by (auto simp: ibt_search_def)

lemma build_total: "\<exists>t. build sf df kvs = Some t \<and> node_ok (root t)"
proof -
  from build_inv [of sf df kvs] obtain t where b: "build sf df kvs = Some t" by blast
  from built_node_ok [OF b] b show ?thesis by blast
qed

section \<open>Display in key order\<close>

lemma show_rec_fold:
  "ibt_show_rec t node stream w
     = fold (\<lambda>e. ibt_show_value t (Some e) stream) (entries node) w"
proof (induction node arbitrary: w)
  case NULL
  then show ?case by simp
next
  case (Node_s e l r)
  then show ?case by (cases e) (simp_all add: Let_def)
qed

lemma show_value_fold:
  assumes "ibt_show_value_w t = Some f"
  shows "fold (\<lambda>e. ibt_show_value t (Some e) stream) es w
           = w\<lparr>user := fold (\<lambda>e. f (Some e) stream) es (user w)\<rparr>"
proof (induction es arbitrary: w)
  case Nil
  then show ?case by simp
next
  case (Cons e es)
  then show ?case using assms by (simp add: ibt_show_value_def)
qed

lemma unat_less_by_prefix:
  assumes "unat (a :: ikey_t) div 2 ^ m = 2 * p" "unat (b :: ikey_t) div 2 ^ m = 2 * p + 1"
  shows "a < b"
proof (rule ccontr)
  assume "\<not> a < b"
  then have "unat b \<le> unat a" by (simp add: word_less_nat_alt)
  then have "unat b div 2 ^ m \<le> unat a div 2 ^ m" by (rule div_le_mono)
  with assms show False by simp
qed

lemma wf_sorted: "wf_node n p node \<Longrightarrow> sorted_wrt (<) (map key (entries node))"
proof (induction node arbitrary: n p)
  case NULL
  then show ?case by simp
next
  case (Node_s e l r)
  show ?case
  proof (cases e)
    case (Some x)
    with Node_s.prems show ?thesis by simp
  next
    case None
    with Node_s.prems have wl: "wf_node (n - 1) (2 * p) l" and wr: "wf_node (n - 1) (2 * p + 1) r"
      by auto
    have "key x < key y" if "x \<in> set (entries l)" "y \<in> set (entries r)" for x y
      using wf_entries [OF wl that(1)] wf_entries [OF wr that(2)] by (rule unat_less_by_prefix)
    with Node_s.IH(1) [OF wl] Node_s.IH(2) [OF wr] None show ?thesis
      by (auto simp: sorted_wrt_append)
  qed
qed

section \<open>The claims\<close>

text \<open>
  C1. Whatever the sequence of insertions into a fresh trie, the insertions all
  return, and \<^verbatim>\<open>ibt_search\<close> for a key that was inserted returns the entry with that key,
  holding the value of the key's first insertion; the trie and the world are unchanged.
\<close>

theorem search_finds_inserted_key:
  "\<exists>t. build sf df kvs = Some t
      \<and> (\<forall>k \<in> fst ` set kvs.
            \<exists>e. ibt_search t k w = Some (Returned (Some e) t w)
               \<and> key e = k \<and> map_of kvs k = Some (val e))"
proof -
  from build_inv [of sf df kvs] obtain t where
    b: "build sf df kvs = Some t" and inv: "trie_inv t"
    and nul: "root t = NULL \<longleftrightarrow> kvs = []"
    and ent: "set (entries (root t)) = {\<lparr>val = v, key = k\<rparr> |k v. map_of kvs k = Some v}"
    by blast
  from inv have wf: "wf_node 32 0 (root t)" by (simp add: trie_inv_def)
  have "\<exists>e. ibt_search t k w = Some (Returned (Some e) t w)
               \<and> key e = k \<and> map_of kvs k = Some (val e)" if "k \<in> fst ` set kvs" for k
  proof -
    from that obtain v where v: "map_of kvs k = Some v"
      by (cases "map_of kvs k") (auto simp: map_of_eq_None_iff)
    let ?x = "\<lparr>val = v, key = k\<rparr>"
    from v ent have x: "?x \<in> set (entries (root t))" by auto
    from that nul have "root t \<noteq> NULL" by auto
    moreover from search_exact [OF wf _ x]
    have "ibt_search_rec (root t) k top_mask = Some (Some ?x)"
      by (simp add: top_mask_level)
    ultimately have "ibt_search t k w = Some (Returned (Some ?x) t w)"
      by (simp add: ibt_search_def)
    with v show ?thesis by (intro exI [of _ ?x]) simp
  qed
  with b show ?thesis by blast
qed

theorem search_finds_inserted_key_witness:
  "\<exists>t. build None None [(0x80000000, ''a''), (0xC0000000, ''b'')] = Some t
      \<and> (\<exists>e. ibt_search t 0xC0000000 idle_world = Some (Returned (Some e) t idle_world)
             \<and> key e = 0xC0000000 \<and> val e = ''b'')"
proof -
  from search_finds_inserted_key [of None None "[(0x80000000, ''a''), (0xC0000000, ''b'')]" idle_world]
  obtain t :: "(string, unit) Trie_s" where
    b: "build None None [(0x80000000, ''a''), (0xC0000000, ''b'')] = Some t"
    and all: "\<forall>k \<in> fst ` set [(0x80000000 :: ikey_t, ''a''), (0xC0000000, ''b'')].
            \<exists>e. ibt_search t k idle_world = Some (Returned (Some e) t idle_world)
               \<and> key e = k \<and> map_of [(0x80000000, ''a''), (0xC0000000, ''b'')] k = Some (val e)"
    by blast
  from all have "\<exists>e. ibt_search t 0xC0000000 idle_world = Some (Returned (Some e) t idle_world)
               \<and> key e = 0xC0000000
               \<and> map_of [(0x80000000 :: ikey_t, ''a''), (0xC0000000, ''b'')] 0xC0000000 = Some (val e)"
    by simp
  then obtain e where
    "ibt_search t 0xC0000000 idle_world = Some (Returned (Some e) t idle_world)"
    "key e = 0xC0000000" "val e = ''b''"
    by auto
  with b show ?thesis by blast
qed

text \<open>
  C2. When the exact descent of the specification on a built trie reaches a branch \<open>b\<close>
  whose required child is absent on side \<open>s\<close>, \<^verbatim>\<open>ibt_search\<close> returns the entry that
  closest-match mode with bias \<open>s\<close> finds from \<open>b\<close>: into the child on the side of the
  bias when present, otherwise into the other child, down to a leaf, whose entry it is.
  In the code this is \<^verbatim>\<open>ibt_closest_match_rec\<close> on the child that is present, with mode
  \<^verbatim>\<open>'l'\<close> when the left child is missing and \<^verbatim>\<open>'r'\<close> when the right one is.
\<close>

theorem closest_match_follows_bias:
  assumes "build sf df kvs = Some t" "spec_descent (root t) (key_bits k) = Some (b, s)"
  shows "\<exists>e. ibt_search t k w = Some (Returned (Some e) t w) \<and> spec_closest s b = Some e
           \<and> (s = Bias_Left \<longrightarrow> left b = NULL
                 \<and> ibt_closest_match_rec (right b) (CHR ''l'') = Some (Some e))
           \<and> (s = Bias_Right \<longrightarrow> right b = NULL
                 \<and> ibt_closest_match_rec (left b) (CHR ''r'') = Some (Some e))"
proof -
  from assms(2) have nn: "root t \<noteq> NULL" by auto
  from built_search [OF assms(1) nn, of k w] obtain e where
    e: "ibt_search t k w = Some (Returned (Some e) t w)" by blast
  from search_divert [of "root t" 32 k b s] assms(2)
  have "ibt_search_rec (root t) k top_mask = Some (spec_closest s b)"
    by (simp add: key_bits_def top_mask_level)
  with nn have "ibt_search t k w = Some (Returned (spec_closest s b) t w)"
    by (simp add: ibt_search_def)
  with e have sc: "spec_closest s b = Some e" by simp
  note side = spec_descent_side [OF assms(2)]
  have l: "left b = NULL \<and> ibt_closest_match_rec (right b) (CHR ''l'') = Some (Some e)"
    if "s = Bias_Left"
  proof -
    from side that have "left b = NULL" "right b \<noteq> NULL" "b \<noteq> NULL" by simp_all
    with sc that closest_spec [of "right b" "CHR ''l''"] show ?thesis by (cases b) simp_all
  qed
  have r: "right b = NULL \<and> ibt_closest_match_rec (left b) (CHR ''r'') = Some (Some e)"
    if "s = Bias_Right"
  proof -
    from side that have "right b = NULL" "left b \<noteq> NULL" "b \<noteq> NULL" by simp_all
    with sc that closest_spec [of "left b" "CHR ''r''"] show ?thesis by (cases b) simp_all
  qed
  from e sc l r show ?thesis by blast
qed

theorem closest_match_follows_bias_witness:
  "build None None [(0x80000000, ''a''), (0xC0000000, ''b'')] = Some two_key_trie
   \<and> spec_descent (root two_key_trie) (key_bits 5) = Some (root two_key_trie, Bias_Left)
   \<and> (\<exists>e. ibt_search two_key_trie 5 idle_world = Some (Returned (Some e) two_key_trie idle_world)
          \<and> spec_closest Bias_Left (root two_key_trie) = Some e
          \<and> left (root two_key_trie) = NULL
          \<and> ibt_closest_match_rec (right (root two_key_trie)) (CHR ''l'') = Some (Some e)
          \<and> e = \<lparr>val = ''a'', key = 0x80000000\<rparr>)"
proof -
  have b: "build None None [(0x80000000, ''a''), (0xC0000000, ''b'')] = Some two_key_trie"
    by (rule build_two_key_trie)
  have d: "spec_descent (root two_key_trie) (key_bits 5) = Some (root two_key_trie, Bias_Left)"
    by (rule descent_two_key_trie)
  from closest_match_follows_bias [OF b d, of idle_world] obtain e where
    e: "ibt_search two_key_trie 5 idle_world = Some (Returned (Some e) two_key_trie idle_world)"
      "spec_closest Bias_Left (root two_key_trie) = Some e"
      "left (root two_key_trie) = NULL"
      "ibt_closest_match_rec (right (root two_key_trie)) (CHR ''l'') = Some (Some e)"
    by blast
  have "spec_closest Bias_Left (root two_key_trie) = Some \<lparr>val = ''a'', key = 0x80000000\<rparr>"
    by (simp add: two_key_trie_def)
  with e(2) have "e = \<lparr>val = ''a'', key = 0x80000000\<rparr>" by simp
  with b d e show ?thesis by simp
qed

text \<open>
  C3. In every trie built by insertions each node is a leaf (an entry, no child) or a
  branch (no entry, at least one child), so a node without children holds an entry.
  Every insertion that returns keeps this shape, and on a tree of this shape the
  closest-match descent ends in a leaf and returns its entry.
\<close>

theorem nodes_are_leaves_or_branches:
  "(\<exists>t. build sf df kvs = Some t \<and> node_ok (root t))
   \<and> (node_ok (root t1) \<longrightarrow> ibt_insert t1 k v = Some t2 \<longrightarrow> node_ok (root t2))
   \<and> (node_ok n \<longrightarrow> n \<noteq> NULL \<longrightarrow>
        (\<exists>e. ibt_closest_match_rec n mode = Some (Some e) \<and> e \<in> set (entries n)))"
proof (intro conjI impI)
  show "\<exists>t. build sf df kvs = Some t \<and> node_ok (root t)" by (rule build_total)
next
  assume "node_ok (root t1)" "ibt_insert t1 k v = Some t2"
  from ibt_insert_ok [OF this] show "node_ok (root t2)" by simp
next
  assume "node_ok n" "n \<noteq> NULL"
  then show "\<exists>e. ibt_closest_match_rec n mode = Some (Some e) \<and> e \<in> set (entries n)"
    by (rule closest_ok)
qed

theorem nodes_are_leaves_or_branches_witness:
  "node_ok (root two_key_trie)
   \<and> (\<exists>t2. ibt_insert two_key_trie 5 ''c'' = Some t2 \<and> node_ok (root t2))
   \<and> root two_key_trie \<noteq> NULL
   \<and> (\<exists>e. ibt_closest_match_rec (root two_key_trie) (CHR ''r'') = Some (Some e)
          \<and> e \<in> set (entries (root two_key_trie)))"
proof -
  have ok: "node_ok (root two_key_trie)" by (simp add: two_key_trie_def)
  have nn: "root two_key_trie \<noteq> NULL" by (simp add: two_key_trie_def)
  from insert_5_two_key_trie obtain t2 where ins: "ibt_insert two_key_trie 5 ''c'' = Some t2" ..
  have inst: "(node_ok (root two_key_trie) \<longrightarrow> ibt_insert two_key_trie 5 ''c'' = Some t2
                 \<longrightarrow> node_ok (root t2))
      \<and> (node_ok (root two_key_trie) \<longrightarrow> root two_key_trie \<noteq> NULL \<longrightarrow>
          (\<exists>e. ibt_closest_match_rec (root two_key_trie) (CHR ''r'') = Some (Some e)
            \<and> e \<in> set (entries (root two_key_trie))))"
    using nodes_are_leaves_or_branches
      [of None None "[] :: (ikey_t \<times> string) list" two_key_trie 5 "''c''" t2
        "root two_key_trie" "CHR ''r''"]
    by (rule conjunct2)
  from inst ok ins have ok2: "node_ok (root t2)" by simp
  from inst ok nn
  have cl: "\<exists>e. ibt_closest_match_rec (root two_key_trie) (CHR ''r'') = Some (Some e)
          \<and> e \<in> set (entries (root two_key_trie))"
    by simp
  from ins ok2 have "\<exists>t2. ibt_insert two_key_trie 5 ''c'' = Some t2 \<and> node_ok (root t2)"
    by (intro exI [of _ t2]) simp
  with ok nn cl show ?thesis by (intro conjI)
qed

text \<open>
  C4. Inserting a key that is already present in a built trie creates no node and no
  entry: the call returns the trie with only \<open>leaf_nodes\<close> raised by one. So
  \<^verbatim>\<open>ibt_size\<close> grows by one, and \<^verbatim>\<open>ibt_node_count\<close>, the difference of \<open>num_nodes\<close> and
  \<open>leaf_nodes\<close>, does not stay as it was but drops by one, wrapping around at 0.
\<close>

theorem duplicate_insert_counters:
  assumes "build sf df kvs = Some t" "k \<in> fst ` set kvs"
  shows "ibt_insert t k v = Some (t\<lparr>leaf_nodes := leaf_nodes t + 1\<rparr>)
         \<and> ibt_size (t\<lparr>leaf_nodes := leaf_nodes t + 1\<rparr>) = ibt_size t + 1
         \<and> ibt_node_count (t\<lparr>leaf_nodes := leaf_nodes t + 1\<rparr>) = ibt_node_count t - 1
         \<and> ibt_node_count (t\<lparr>leaf_nodes := leaf_nodes t + 1\<rparr>) \<noteq> ibt_node_count t"
proof -
  note bi = built_inv [OF assms(1)]
  from assms(2) obtain v0 where "map_of kvs k = Some v0"
    by (cases "map_of kvs k") (auto simp: map_of_eq_None_iff)
  with bi(6) have "\<lparr>val = v0, key = k\<rparr> \<in> set (entries (root t))" by auto
  then have "key \<lparr>val = v0, key = k\<rparr> \<in> node_keys (root t)"
    unfolding node_keys_def by (rule imageI)
  then have present: "k \<in> node_keys (root t)" by simp
  from ibt_insert_inv [OF bi(1), of k v] present
  have "ibt_insert t k v = Some (t\<lparr>leaf_nodes := leaf_nodes t + 1\<rparr>)" by auto
  then show ?thesis by (simp add: ibt_size_def ibt_node_count_def)
qed

theorem duplicate_insert_counters_witness:
  "build None None [(5, ''a'')] = Some one_key_trie
   \<and> 5 \<in> fst ` set [(5 :: ikey_t, ''a'')]
   \<and> ibt_insert one_key_trie 5 ''b'' = Some (one_key_trie\<lparr>leaf_nodes := 2\<rparr>)
   \<and> ibt_size one_key_trie = 1 \<and> ibt_size (one_key_trie\<lparr>leaf_nodes := 2\<rparr>) = 2
   \<and> ibt_node_count one_key_trie = 0
   \<and> ibt_node_count (one_key_trie\<lparr>leaf_nodes := 2\<rparr>) = 18446744073709551615"
proof -
  have b: "build None None [(5, ''a'')] = Some one_key_trie" by (rule build_one_key_trie)
  have k: "5 \<in> fst ` set [(5 :: ikey_t, ''a'')]" by simp
  have l: "leaf_nodes one_key_trie + 1 = 2" by (simp add: one_key_trie_def)
  from duplicate_insert_counters [OF b k, of "''b''"] l
  have "ibt_insert one_key_trie 5 ''b'' = Some (one_key_trie\<lparr>leaf_nodes := 2\<rparr>)" by simp
  moreover have "ibt_size one_key_trie = 1" "ibt_size (one_key_trie\<lparr>leaf_nodes := 2\<rparr>) = 2"
    "ibt_node_count one_key_trie = 0"
    "ibt_node_count (one_key_trie\<lparr>leaf_nodes := 2\<rparr>) = 18446744073709551615"
    by (simp_all add: one_key_trie_def ibt_size_def ibt_node_count_def)
  ultimately show ?thesis using b k by (intro conjI)
qed

text \<open>
  C5. Starting from an empty trie, after inserting key \<^verbatim>\<open>0x00000001\<close> and then key
  \<^verbatim>\<open>0x00000003\<close>, \<^verbatim>\<open>ibt_height\<close> is 32: the root, thirty nodes for the shared bits 31 to 2,
  and the level of the two leaves below bit 1. It is not 31.
\<close>

theorem height_after_1_and_3:
  "map_option ibt_height (build sf df [(0x00000001, a), (0x00000003, b)]) = Some 32"
  using counters_1_3 [of sf df a b]
  by (cases "build sf df [(1, a), (3, b)]") (auto simp: ibt_height_def)

theorem height_after_1_and_3_not_31:
  "map_option ibt_height
     (build None None [(0x00000001, ()), (0x00000003, ())] :: (unit, unit) Trie_s option) \<noteq> Some 31"
proof -
  have "map_option (\<lambda>t. (height t, num_nodes t, leaf_nodes t))
          (build None None [(1, ()), (3, ())] :: (unit, unit) Trie_s option) = Some (32, 33, 2)"
    by (rule counters_1_3)
  then show ?thesis
    by (cases "build None None [(1, ()), (3, ())] :: (unit, unit) Trie_s option")
       (auto simp: ibt_height_def)
qed

text \<open>
  C6. An insertion into a built trie returns and raises \<open>num_nodes\<close> by the number of
  nodes it creates, which is at most 33: up to 31 chain nodes for the bits two keys
  share below a leaf at the root, and two leaves. Two is not a bound: inserting key 3
  after key 1 creates 32 nodes.
\<close>

theorem insert_creates_at_most_33_nodes:
  assumes "build sf df kvs = Some t"
  shows "\<exists>t' c. ibt_insert t k v = Some t' \<and> c \<le> 33
           \<and> num_nodes t' = num_nodes t + of_nat c
           \<and> count_nodes (root t') = count_nodes (root t) + c"
  using ibt_insert_inv [OF built_inv(1) [OF assms], of k v] by blast

theorem insert_creates_at_most_33_nodes_witness:
  "build None None [(0x80000000, ''a''), (0xC0000000, ''b'')] = Some two_key_trie
   \<and> (\<exists>t' c. ibt_insert two_key_trie 5 ''c'' = Some t' \<and> c \<le> 33
           \<and> num_nodes t' = num_nodes two_key_trie + of_nat c
           \<and> count_nodes (root t') = count_nodes (root two_key_trie) + c)"
  using build_two_key_trie insert_creates_at_most_33_nodes [OF build_two_key_trie, of 5 "''c''"]
  by (rule conjI)

theorem insert_creates_32_nodes:
  "\<exists>t t'. build None None [(1, ())] = Some t
      \<and> ibt_insert t 3 () = Some (t' :: (unit, unit) Trie_s)
      \<and> num_nodes t = 1 \<and> num_nodes t' = 33
      \<and> unat (num_nodes t' - num_nodes t) = 32
      \<and> \<not> unat (num_nodes t' - num_nodes t) \<le> 2"
  by (simp add: run_simps)

text \<open>
  C7. On a trie without a root, \<^verbatim>\<open>ibt_search\<close> writes the error line, destroys the trie
  (there is no node to free, only the trie itself) and exits with \<^verbatim>\<open>EXIT_FAILURE\<close>; it
  returns no entry, whatever the key.
\<close>

theorem search_empty_trie:
  assumes "root t = NULL"
  shows "ibt_search t k w
           = Some (Exited EXIT_FAILURE
               (ibt_destroy t (w\<lparr>stderr := stderr w @ [''error: cannot query an empty trie'']\<rparr>)))
         \<and> ibt_destroy t (w\<lparr>stderr := stderr w @ [''error: cannot query an empty trie'']\<rparr>)
             = w\<lparr>stderr := stderr w @ [''error: cannot query an empty trie''],
                 frees := frees w + 1\<rparr>
         \<and> (\<forall>e t' w'. ibt_search t k w \<noteq> Some (Returned e t' w'))"
  using assms by (simp add: ibt_search_def ibt_destroy_def)

theorem search_empty_trie_witness:
  "root (\<lparr>root = NULL, num_nodes = 0, leaf_nodes = 0, height = 0,
          ibt_show_value_w = None, ibt_delete_entry = None\<rparr> :: (unit, unit) Trie_s) = NULL
   \<and> ibt_search (\<lparr>root = NULL, num_nodes = 0, leaf_nodes = 0, height = 0,
          ibt_show_value_w = None, ibt_delete_entry = None\<rparr> :: (unit, unit) Trie_s) 5
        \<lparr>user = (), stderr = [], frees = 0\<rparr>
      = Some (Exited 1 \<lparr>user = (), stderr = [''error: cannot query an empty trie''], frees = 1\<rparr>)"
  using search_empty_trie [of "\<lparr>root = NULL, num_nodes = 0, leaf_nodes = 0, height = 0,
          ibt_show_value_w = None, ibt_delete_entry = None\<rparr> :: (unit, unit) Trie_s" 5
        "\<lparr>user = (), stderr = [], frees = 0\<rparr>"]
  by (simp add: EXIT_FAILURE_def)

text \<open>
  C8. On a trie built by insertions that has a root, \<^verbatim>\<open>ibt_search\<close> returns, for every
  key, an entry that is stored in the tree (never the \<^verbatim>\<open>NULL\<close> entry), and the trie and
  the world after the call are the ones before it: the function writes to no node,
  entry, counter or callback and calls neither \<^verbatim>\<open>malloc\<close> nor \<^verbatim>\<open>free\<close>.
\<close>

theorem search_returns_stored_entry:
  assumes "build sf df kvs = Some t" "root t \<noteq> NULL"
  shows "\<exists>e. ibt_search t k w = Some (Returned (Some e) t w) \<and> e \<in> set (entries (root t))"
  using assms by (rule built_search)

theorem search_returns_stored_entry_witness:
  "build None None [(0x80000000, ''a''), (0xC0000000, ''b'')] = Some two_key_trie
   \<and> root two_key_trie \<noteq> NULL
   \<and> (\<exists>e. ibt_search two_key_trie 0xFFFFFFFF idle_world
              = Some (Returned (Some e) two_key_trie idle_world)
          \<and> e \<in> set (entries (root two_key_trie)))"
proof -
  have b: "build None None [(0x80000000, ''a''), (0xC0000000, ''b'')] = Some two_key_trie"
    by (rule build_two_key_trie)
  have r: "root two_key_trie \<noteq> NULL" by (simp add: two_key_trie_def)
  from search_returns_stored_entry [OF b r, of "0xFFFFFFFF" idle_world] b r
  show ?thesis by simp
qed

text \<open>
  C9. On a trie built by insertions \<^verbatim>\<open>ibt_show\<close> calls \<^verbatim>\<open>ibt_show_value\<close> on the entries in
  the order left subtree, own entry, right subtree; with a display function \<open>f\<close> that
  is one call of \<open>f\<close> per entry in this order. The keys in this order are strictly
  ascending as unsigned numbers, no entry occurs twice, and the entries are exactly the
  stored ones: each inserted key with the value of its first insertion.
\<close>

theorem show_in_ascending_order:
  assumes "build sf df kvs = Some t"
  shows "ibt_show t stream w
           = fold (\<lambda>e. ibt_show_value t (Some e) stream) (entries (root t)) w
         \<and> (\<forall>f. sf = Some f \<longrightarrow>
               ibt_show t stream w
                 = w\<lparr>user := fold (\<lambda>e. f (Some e) stream) (entries (root t)) (user w)\<rparr>)
         \<and> sorted_wrt (<) (map key (entries (root t)))
         \<and> distinct (entries (root t))
         \<and> set (entries (root t)) = {\<lparr>val = v, key = k\<rparr> |k v. map_of kvs k = Some v}"
proof -
  note bi = built_inv [OF assms]
  have fold: "ibt_show t stream w
           = fold (\<lambda>e. ibt_show_value t (Some e) stream) (entries (root t)) w"
    by (simp add: ibt_show_def show_rec_fold)
  have user: "ibt_show t stream w
      = w\<lparr>user := fold (\<lambda>e. f (Some e) stream) (entries (root t)) (user w)\<rparr>" if "sf = Some f" for f
    using that bi(3) fold show_value_fold [of t f stream "entries (root t)" w] by simp
  from bi(1) have sorted: "sorted_wrt (<) (map key (entries (root t)))"
    by (auto simp: trie_inv_def intro: wf_sorted)
  then have "distinct (map key (entries (root t)))"
    by (simp add: strict_sorted_iff)
  then have dist: "distinct (entries (root t))" by (simp add: distinct_map)
  from fold user sorted dist bi(6) show ?thesis by blast
qed

theorem show_in_ascending_order_witness:
  "build (Some log_key) None [(0xC0000000, ''b''), (0x80000000, ''a'')] = Some logging_trie
   \<and> ibt_show logging_trie 1 \<lparr>user = [], stderr = [], frees = 0\<rparr>
       = \<lparr>user = [0x80000000, 0xC0000000], stderr = [], frees = 0\<rparr>
   \<and> sorted_wrt (<) (map key (entries (root logging_trie)))"
proof -
  have b: "build (Some log_key) None [(0xC0000000, ''b''), (0x80000000, ''a'')] = Some logging_trie"
    by (rule build_logging_trie)
  note inst = show_in_ascending_order [OF b, of 1 "\<lparr>user = [], stderr = [], frees = 0\<rparr>"]
  note shown = inst [THEN conjunct2, THEN conjunct1, rule_format, OF refl]
  note ascending = inst [THEN conjunct2, THEN conjunct2, THEN conjunct1]
  have "entries (root logging_trie)
      = [\<lparr>val = ''a'', key = 0x80000000\<rparr>, \<lparr>val = ''b'', key = 0xC0000000\<rparr>]"
    by (simp add: logging_trie_def two_key_trie_def)
  with shown have sh: "ibt_show logging_trie 1 \<lparr>user = [], stderr = [], frees = 0\<rparr>
       = \<lparr>user = [0x80000000, 0xC0000000], stderr = [], frees = 0\<rparr>"
    by (simp add: log_key_def)
  from b sh ascending show ?thesis by (intro conjI)
qed

text \<open>
  C10. \<^verbatim>\<open>ibt_node_count\<close> is the unsigned difference \<open>num_nodes - leaf_nodes\<close>. After any
  sequence of insertions \<open>leaf_nodes\<close> is the number of calls and \<open>num_nodes\<close> the number
  of nodes in the tree. After three insertions of one key into an empty trie
  \<open>num_nodes\<close> is 1 and \<open>leaf_nodes\<close> is 3, so the difference wraps around to
  \<open>2 ^ 64 - 2\<close>, while the tree has no internal node.
\<close>

theorem node_count_wraps:
  "ibt_node_count t = num_nodes t - leaf_nodes t
   \<and> (\<exists>t'. build sf df kvs = Some t' \<and> leaf_nodes t' = of_nat (length kvs)
          \<and> num_nodes t' = of_nat (count_nodes (root t')))
   \<and> (\<exists>t'. build sf df [(k, v1), (k, v2), (k, v3)] = Some t'
          \<and> num_nodes t' = 1 \<and> leaf_nodes t' = 3 \<and> num_nodes t' < leaf_nodes t'
          \<and> internal_nodes (root t') = 0
          \<and> ibt_node_count t' = 18446744073709551614
          \<and> unat (ibt_node_count t') = 2 ^ 64 - 2)"
proof -
  from build_inv [of sf df kvs]
  have "\<exists>t'. build sf df kvs = Some t' \<and> leaf_nodes t' = of_nat (length kvs)
          \<and> num_nodes t' = of_nat (count_nodes (root t'))"
    by (auto simp: trie_inv_def)
  moreover have "\<exists>t'. build sf df [(k, v1), (k, v2), (k, v3)] = Some t'
          \<and> num_nodes t' = 1 \<and> leaf_nodes t' = 3 \<and> num_nodes t' < leaf_nodes t'
          \<and> internal_nodes (root t') = 0
          \<and> ibt_node_count t' = 18446744073709551614
          \<and> unat (ibt_node_count t') = 2 ^ 64 - 2"
    by (simp add: run_simps ibt_node_count_def)
  ultimately show ?thesis by (simp add: ibt_node_count_def)
qed

end
